theory Spec2Isabelle
  imports Main
begin

section \<open>The request pipeline of \<^verbatim>\<open>design-pattern/strategy.ts\<close>\<close>

text \<open>
  The middleware pipeline (\<^verbatim>\<open>middleware/RequestPipeline.ts\<close>, the second document of
  \<^verbatim>\<open>src/design-pattern/strategy.ts\<close>) is embedded function by function.

  \<^item> Promises are awaited one after the other inside one request, so \<^verbatim>\<open>async\<close>
    functions are modelled as sequential state passing.
  \<^item> A thrown \<^verbatim>\<open>Error\<close> is the left summand of a result.
  \<^item> \<^verbatim>\<open>console.log\<close> output is not observed by any function and is left out.
  \<^item> JavaScript numbers are modelled as integers (timestamps of \<^verbatim>\<open>Date.now()\<close> are),
    strings as lists of 8-bit characters.
\<close>

subsection \<open>Data model\<close>

text \<open>A thrown JavaScript \<^verbatim>\<open>Error\<close> with its message.\<close>

datatype error = Error string

text \<open>
  The values a field of a request body can hold. \<^verbatim>\<open>body: any\<close> is modelled as
  absent (\<^verbatim>\<open>undefined\<close> or \<^verbatim>\<open>null\<close>) or a plain object of such values.
\<close>

datatype jsvalue = Undefined | Null | Boolean bool | Number int | Str string

text \<open>The object \<^verbatim>\<open>verifyToken\<close> produces and \<^verbatim>\<open>request.user\<close> holds.\<close>

record Identity =
  ident :: string
  email :: string
  role :: string

text \<open>
  \<^verbatim>\<open>interface Request\<close>. The fields \<^verbatim>\<open>id\<close> and \<^verbatim>\<open>method\<close> are named \<open>req_id\<close> and
  \<open>req_method\<close>; \<^verbatim>\<open>metadata\<close> is never
  read or written and is left out.
\<close>

record Request =
  req_id :: string
  req_method :: string
  path :: string
  headers :: "string \<rightharpoonup> string"
  body :: "(string \<rightharpoonup> jsvalue) option"
  user :: "Identity option"

text \<open>
  The response bodies the code builds: \<^verbatim>\<open>{ error }\<close>, \<^verbatim>\<open>{ error, details }\<close>, and the
  objects of string fields the route handlers return.
\<close>

datatype payload =
    ErrorBody string
  | ErrorDetails string "string list"
  | Fields "(string \<times> string) list"

text \<open>\<^verbatim>\<open>interface Response\<close>; the fields are named \<open>status\<close>, \<open>rbody\<close>, \<open>rheaders\<close>.\<close>

record Response =
  status :: nat
  rbody :: payload
  rheaders :: "(string \<times> string) list option"

type_synonym result = "error + Response"

text \<open>
  Everything a handler can read or change while one request is processed: the request
  object (handlers receive a reference to the same object, and the authenticator writes
  its \<^verbatim>\<open>user\<close> field), the private table \<^verbatim>\<open>requests\<close> of the rate limiter, and the
  system clock: \<open>clock w n\<close> is what the \<open>n\<close>-th call of \<^verbatim>\<open>Date.now()\<close> returns, and
  \<open>ticks w\<close> counts the calls made so far.
\<close>

record world =
  request :: Request
  requests :: "string \<rightharpoonup> int list"
  clock :: "nat \<Rightarrow> int"
  ticks :: nat

definition Date_now :: "world \<Rightarrow> int \<times> world" where
  "Date_now w = (clock w (ticks w), w\<lparr>ticks := ticks w + 1\<rparr>)"

subsection \<open>Handlers\<close>

text \<open>
  \<^verbatim>\<open>execute(request, next)\<close> either returns (or throws) without calling \<^verbatim>\<open>next\<close>:
  \<open>Done r w\<close>; or it calls \<^verbatim>\<open>next()\<close> in the state \<open>w\<close> and goes on with what the call
  returns or throws and the state it leaves: \<open>Call w k\<close>. A handler whose continuation
  \<open>k\<close> is again a \<open>Call\<close> invokes \<^verbatim>\<open>next\<close> a second time.
\<close>

datatype step = Done result world | Call world "result \<Rightarrow> world \<Rightarrow> step"

type_synonym Middleware = "world \<Rightarrow> step"

text \<open>\<^verbatim>\<open>return await next()\<close>: whatever \<^verbatim>\<open>next\<close> returns or throws is passed on.\<close>

definition return_next :: "result \<Rightarrow> world \<Rightarrow> step" where
  "return_next r w = Done r w"

definition key_of :: "Request \<Rightarrow> string" where
  "key_of r = req_method r @ '':'' @ path r"

subsubsection \<open>LoggingMiddleware\<close>

text \<open>
  Reads the clock, calls \<^verbatim>\<open>next\<close>, reads the clock again, and returns the response or
  rethrows the error.
\<close>

definition LoggingMiddleware :: Middleware where
  "LoggingMiddleware w =
     (case Date_now w of (startTime, w1) \<Rightarrow>
        Call w1 (\<lambda>r w2. case Date_now w2 of (endTime, w3) \<Rightarrow>
          (case r of Inr response \<Rightarrow> Done (Inr response) w3
                   | Inl err \<Rightarrow> Done (Inl err) w3)))"

subsubsection \<open>AuthenticationMiddleware\<close>

definition startsWith :: "string \<Rightarrow> string \<Rightarrow> bool" where
  "startsWith s p = (take (length p) s = p)"

definition verifyToken :: "string \<Rightarrow> error + Identity" where
  "verifyToken token =
     (if token = ''valid-token''
        then Inr \<lparr>ident = ''user123'', email = ''user@example.com'', role = ''user''\<rparr>
      else if token = ''admin-token''
        then Inr \<lparr>ident = ''admin123'', email = ''admin@example.com'', role = ''admin''\<rparr>
      else Inl (Error ''Invalid token''))"

definition unauthorized :: "string \<Rightarrow> Response" where
  "unauthorized msg = \<lparr>status = 401, rbody = ErrorBody msg, rheaders = None\<rparr>"

text \<open>
  \<^verbatim>\<open>!authHeader\<close> holds for a missing header and for the empty string. The
  \<^verbatim>\<open>try\<close> block encloses \<^verbatim>\<open>await next()\<close>, so an error thrown further down the chain is
  caught here as well and answered with 401.
\<close>

definition AuthenticationMiddleware :: Middleware where
  "AuthenticationMiddleware w =
     (case headers (request w) ''authorization'' of
        None \<Rightarrow> Done (Inr (unauthorized ''Missing or invalid authorization header'')) w
      | Some authHeader \<Rightarrow>
          if authHeader = [] \<or> \<not> startsWith authHeader ''Bearer ''
          then Done (Inr (unauthorized ''Missing or invalid authorization header'')) w
          else
            (case verifyToken (drop 7 authHeader) of
               Inl err \<Rightarrow> Done (Inr (unauthorized ''Invalid token'')) w
             | Inr u \<Rightarrow>
                 Call (w\<lparr>request := (request w)\<lparr>user := Some u\<rparr>\<rparr>)
                   (\<lambda>r w'. case r of
                       Inr response \<Rightarrow> Done (Inr response) w'
                     | Inl err \<Rightarrow> Done (Inr (unauthorized ''Invalid token'')) w')))"

subsubsection \<open>RateLimitingMiddleware\<close>

definition windowMs :: int where
  "windowMs = 60 * 1000"

definition maxRequests :: nat where
  "maxRequests = 10"

text \<open>
  \<^verbatim>\<open>request.user?.id || request.headers['x-forwarded-for'] || 'unknown'\<close>: the empty
  string is falsy, like \<^verbatim>\<open>undefined\<close>.
\<close>

definition getClientId :: "Request \<Rightarrow> string" where
  "getClientId r =
     (case (case user r of None \<Rightarrow> None | Some u \<Rightarrow> if ident u = [] then None else Some (ident u)) of
        Some uid \<Rightarrow> uid
      | None \<Rightarrow>
          (case headers r ''x-forwarded-for'' of
             None \<Rightarrow> ''unknown''
           | Some ip \<Rightarrow> if ip = [] then ''unknown'' else ip))"

definition stored :: "world \<Rightarrow> string \<Rightarrow> int list" where
  "stored w clientId = (case requests w clientId of None \<Rightarrow> [] | Some xs \<Rightarrow> xs)"

definition isRateLimited :: "string \<Rightarrow> world \<Rightarrow> bool \<times> world" where
  "isRateLimited clientId w =
     (case Date_now w of (now, w1) \<Rightarrow>
        let reqs = stored w1 clientId;
            validRequests = filter (\<lambda>time. now - time < windowMs) reqs;
            w2 = w1\<lparr>requests := (requests w1)(clientId \<mapsto> validRequests)\<rparr>
        in (length validRequests \<ge> maxRequests, w2))"

definition recordRequest :: "string \<Rightarrow> world \<Rightarrow> world" where
  "recordRequest clientId w =
     (let reqs = stored w clientId in
        case Date_now w of (now, w1) \<Rightarrow>
          w1\<lparr>requests := (requests w1)(clientId \<mapsto> reqs @ [now])\<rparr>)"

definition tooManyRequests :: Response where
  "tooManyRequests =
     \<lparr>status = 429, rbody = ErrorBody ''Rate limit exceeded'',
      rheaders = Some [(''Retry-After'', ''60'')]\<rparr>"

definition RateLimitingMiddleware :: Middleware where
  "RateLimitingMiddleware w =
     (let clientId = getClientId (request w) in
        case isRateLimited clientId w of (limited, w1) \<Rightarrow>
          if limited then Done (Inr tooManyRequests) w1
          else Call (recordRequest clientId w1) return_next)"

subsubsection \<open>ValidationMiddleware\<close>

text \<open>
  The rule object of one field: \<^verbatim>\<open>{ required, type, minLength, min }\<close>, the last three
  optional (the fields \<^verbatim>\<open>type\<close> and \<^verbatim>\<open>min\<close> are named \<open>type_rule\<close> and \<open>min_rule\<close>).
  A schema is \<^verbatim>\<open>{ body? }\<close>; the rules of \<^verbatim>\<open>body\<close> are kept in the order of
  \<^verbatim>\<open>Object.entries\<close>.
\<close>

record Rules =
  required :: bool
  type_rule :: "string option"
  minLength :: "nat option"
  min_rule :: "int option"

record Schema =
  schema_body :: "(string \<times> Rules) list option"

definition validation_schemas :: "string \<rightharpoonup> Schema" where
  "validation_schemas =
     [''POST:/users'' \<mapsto> \<lparr>schema_body = Some
         [(''email'', \<lparr>required = True, type_rule = Some ''email'', minLength = None, min_rule = None\<rparr>),
          (''name'', \<lparr>required = True, type_rule = Some ''string'', minLength = Some 2, min_rule = None\<rparr>),
          (''age'', \<lparr>required = False, type_rule = Some ''number'', minLength = None, min_rule = Some 18\<rparr>)]\<rparr>,
      ''PUT:/users/:id'' \<mapsto> \<lparr>schema_body = Some
         [(''name'', \<lparr>required = False, type_rule = Some ''string'', minLength = Some 2, min_rule = None\<rparr>),
          (''age'', \<lparr>required = False, type_rule = Some ''number'', minLength = None, min_rule = Some 18\<rparr>)]\<rparr>]"

text \<open>Decimal rendering of a number inside a template string.\<close>

fun showNat :: "nat \<Rightarrow> string" where
  "showNat n =
     (if n < 10 then [''0123456789'' ! n]
      else showNat (n div 10) @ [''0123456789'' ! (n mod 10)])"

declare showNat.simps [simp del]

definition showInt :: "int \<Rightarrow> string" where
  "showInt i = (if i < 0 then ''-'' @ showNat (nat (- i)) else showNat (nat i))"

text \<open>
  \<^verbatim>\<open>/^[^\s@]+@[^\s@]+\.[^\s@]+$/\<close> on a string: a non-empty run of characters that are
  neither white space nor \<^verbatim>\<open>@\<close>, then \<^verbatim>\<open>@\<close>, then only such characters up to the end,
  with a dot that is neither the first nor the last of them.
\<close>

definition whitespace :: "char \<Rightarrow> bool" where
  "whitespace c = (c \<in> set [CHR 0x09, CHR 0x0A, CHR 0x0B, CHR 0x0C, CHR 0x0D, CHR 0x20, CHR 0xA0])"

definition plain :: "char \<Rightarrow> bool" where
  "plain c = (\<not> whitespace c \<and> c \<noteq> CHR ''@'')"

definition matchesEmail :: "string \<Rightarrow> bool" where
  "matchesEmail s =
     (let local = takeWhile plain s; rest = dropWhile plain s in
        local \<noteq> [] \<and> rest \<noteq> [] \<and> hd rest = CHR ''@'' \<and>
        (let domain = tl rest in
           list_all plain domain \<and> CHR ''.'' \<in> set (butlast (tl domain))))"

text \<open>
  \<^verbatim>\<open>RegExp.test\<close> converts its argument to a string; the string of a number or of a
  boolean holds no \<^verbatim>\<open>@\<close>.
\<close>

definition isValidEmail :: "jsvalue \<Rightarrow> bool" where
  "isValidEmail v = (case v of Str s \<Rightarrow> matchesEmail s | _ \<Rightarrow> False)"

text \<open>\<^verbatim>\<open>typeof value\<close> for a value that is neither \<^verbatim>\<open>undefined\<close> nor \<^verbatim>\<open>null\<close>.\<close>

definition typeof :: "jsvalue \<Rightarrow> string" where
  "typeof v =
     (case v of Str s \<Rightarrow> ''string'' | Number n \<Rightarrow> ''number'' | Boolean b \<Rightarrow> ''boolean''
      | Undefined \<Rightarrow> ''undefined'' | Null \<Rightarrow> ''object'')"

text \<open>
  \<^verbatim>\<open>value.length < n\<close>: only a string has a \<^verbatim>\<open>length\<close>; for a number or a boolean
  the property is \<^verbatim>\<open>undefined\<close> and the comparison is false.
\<close>

definition length_below :: "jsvalue \<Rightarrow> nat \<Rightarrow> bool" where
  "length_below v n = (case v of Str s \<Rightarrow> length s < n | _ \<Rightarrow> False)"

text \<open>
  \<^verbatim>\<open>value < n\<close>: a boolean counts as 0 or 1. A string is converted to a number by the
  JavaScript runtime; that conversion is not part of the repository and is the
  parameter \<open>str_below\<close> (whether the string, as a number, is below \<open>n\<close>).
\<close>

definition below :: "(string \<Rightarrow> int \<Rightarrow> bool) \<Rightarrow> jsvalue \<Rightarrow> int \<Rightarrow> bool" where
  "below str_below v n =
     (case v of Number m \<Rightarrow> m < n
      | Boolean b \<Rightarrow> (if b then 1 else 0) < n
      | Str s \<Rightarrow> str_below s n
      | Null \<Rightarrow> 0 < n
      | Undefined \<Rightarrow> False)"

definition validateField ::
  "(string \<Rightarrow> int \<Rightarrow> bool) \<Rightarrow> string \<Rightarrow> jsvalue \<Rightarrow> Rules \<Rightarrow> string list" where
  "validateField str_below field v rules =
     (if required rules \<and> (v = Undefined \<or> v = Null) then [field @ '' is required'']
      else if v \<noteq> Undefined \<and> v \<noteq> Null then
        (if type_rule rules = Some ''email'' \<and> \<not> isValidEmail v
           then [field @ '' must be a valid email''] else []) @
        (if type_rule rules = Some ''string'' \<and> typeof v \<noteq> ''string''
           then [field @ '' must be a string''] else []) @
        (if type_rule rules = Some ''number'' \<and> typeof v \<noteq> ''number''
           then [field @ '' must be a number''] else []) @
        (case minLength rules of
           Some n \<Rightarrow> if n \<noteq> 0 \<and> length_below v n
                     then [field @ '' must be at least '' @ showNat n @ '' characters''] else []
         | None \<Rightarrow> []) @
        (case min_rule rules of
           Some n \<Rightarrow> if n \<noteq> 0 \<and> below str_below v n
                     then [field @ '' must be at least '' @ showInt n] else []
         | None \<Rightarrow> [])
      else [])"

text \<open>\<^verbatim>\<open>request.body?.[field]\<close>\<close>

definition body_field :: "Request \<Rightarrow> string \<Rightarrow> jsvalue" where
  "body_field r field =
     (case body r of None \<Rightarrow> Undefined
      | Some obj \<Rightarrow> (case obj field of None \<Rightarrow> Undefined | Some v \<Rightarrow> v))"

text \<open>The \<^verbatim>\<open>for\<close> loop over the entries, pushing each field's errors onto \<^verbatim>\<open>errors\<close>.\<close>

definition validateRequest ::
  "(string \<Rightarrow> int \<Rightarrow> bool) \<Rightarrow> Request \<Rightarrow> Schema \<Rightarrow> string list" where
  "validateRequest str_below r schema =
     (case schema_body schema of
        None \<Rightarrow> []
      | Some entries \<Rightarrow>
          foldl (\<lambda>errors (field, rules).
                   errors @ validateField str_below field (body_field r field) rules)
                [] entries)"

definition validationFailed :: "string list \<Rightarrow> Response" where
  "validationFailed validationErrors =
     \<lparr>status = 400, rbody = ErrorDetails ''Validation failed'' validationErrors, rheaders = None\<rparr>"

text \<open>\<^verbatim>\<open>ValidationMiddleware.execute\<close>, for any content of the private map \<^verbatim>\<open>schemas\<close>.\<close>

definition validation_execute ::
  "(string \<Rightarrow> int \<Rightarrow> bool) \<Rightarrow> (string \<rightharpoonup> Schema) \<Rightarrow> Middleware" where
  "validation_execute str_below schemas w =
     (case schemas (key_of (request w)) of
        None \<Rightarrow> Call w return_next
      | Some schema \<Rightarrow>
          let validationErrors = validateRequest str_below (request w) schema in
            if length validationErrors > 0
            then Done (Inr (validationFailed validationErrors)) w
            else Call w return_next)"

definition ValidationMiddleware :: "(string \<Rightarrow> int \<Rightarrow> bool) \<Rightarrow> Middleware" where
  "ValidationMiddleware str_below = validation_execute str_below validation_schemas"

subsubsection \<open>AuthorizationMiddleware\<close>

definition route_permissions :: "string \<rightharpoonup> string list" where
  "route_permissions =
     [''DELETE:/users/:id'' \<mapsto> [''admin''],
      ''GET:/admin/users'' \<mapsto> [''admin''],
      ''POST:/users'' \<mapsto> [''user'', ''admin''],
      ''GET:/users/:id'' \<mapsto> [''user'', ''admin'']]"

definition forbidden :: Response where
  "forbidden = \<lparr>status = 403, rbody = ErrorBody ''Insufficient permissions'', rheaders = None\<rparr>"

text \<open>\<^verbatim>\<open>AuthorizationMiddleware.execute\<close>, for any content of the private map \<^verbatim>\<open>permissions\<close>.\<close>

definition authorization_execute :: "(string \<rightharpoonup> string list) \<Rightarrow> Middleware" where
  "authorization_execute permissions w =
     (case permissions (key_of (request w)) of
        None \<Rightarrow> Call w return_next
      | Some requiredRoles \<Rightarrow>
          (case user (request w) of
             None \<Rightarrow> Done (Inr (unauthorized ''Authentication required'')) w
           | Some u \<Rightarrow>
               if role u \<notin> set requiredRoles
               then Done (Inr forbidden) w
               else Call w return_next))"

definition AuthorizationMiddleware :: Middleware where
  "AuthorizationMiddleware = authorization_execute route_permissions"

subsection \<open>MiddlewarePipeline\<close>

text \<open>
  \<^verbatim>\<open>execute\<close> declares \<^verbatim>\<open>let index = 0\<close> and the closure \<^verbatim>\<open>next\<close>, which every handler
  receives. The closure's state is \<open>index\<close>; \<open>trace\<close> is a ghost log of what \<^verbatim>\<open>next\<close>
  dispatched: \<open>Invoked i\<close> for \<^verbatim>\<open>this.middlewares[i].execute\<close>, \<open>Terminal\<close> for
  \<^verbatim>\<open>handler()\<close>. Handlers see \<open>world\<close> only.
\<close>

datatype event = Invoked nat | Terminal

record chain =
  index :: nat
  trace :: "event list"
  world :: world

type_synonym handler = "world \<Rightarrow> result \<times> world"

text \<open>
  Running a handler's body: each \<open>Call\<close> invokes the closure \<open>nxt\<close> in the current state
  of the chain and resumes with what it returned.
\<close>

primrec run :: "step \<Rightarrow> (chain \<Rightarrow> (result \<times> chain) option) \<Rightarrow> chain \<Rightarrow> (result \<times> chain) option" where
  "run (Done r w) nxt c = Some (r, c\<lparr>world := w\<rparr>)"
| "run (Call w k) nxt c =
     (case nxt (c\<lparr>world := w\<rparr>) of
        None \<Rightarrow> None
      | Some (r, c') \<Rightarrow> run (k r (world c')) nxt c')"

text \<open>
  The closure \<^verbatim>\<open>next\<close>. It calls itself through the handlers it dispatches, so the
  nesting depth of the calls is bounded by a fuel argument; \<open>None\<close> means the bound was
  hit. \<open>execute_total\<close> below shows that the bound \<open>execute\<close> passes is never hit.
\<close>

fun next_closure ::
  "nat \<Rightarrow> Middleware list \<Rightarrow> handler \<Rightarrow> chain \<Rightarrow> (result \<times> chain) option" where
  "next_closure 0 middlewares h c = None"
| "next_closure (Suc fuel) middlewares h c =
     (if index c \<ge> length middlewares
      then (case h (world c) of
              (r, w') \<Rightarrow> Some (r, c\<lparr>trace := trace c @ [Terminal], world := w'\<rparr>))
      else run ((middlewares ! index c) (world c)) (next_closure fuel middlewares h)
             (c\<lparr>index := index c + 1, trace := trace c @ [Invoked (index c)]\<rparr>))"

definition use :: "Middleware list \<Rightarrow> Middleware \<Rightarrow> Middleware list" where
  "use middlewares middleware = middlewares @ [middleware]"

definition execute :: "Middleware list \<Rightarrow> handler \<Rightarrow> world \<Rightarrow> (result \<times> chain) option" where
  "execute middlewares h w =
     next_closure (Suc (length middlewares)) middlewares h \<lparr>index = 0, trace = [], world = w\<rparr>"

subsection \<open>HTTPServer\<close>

record HTTPServer =
  pipeline :: "Middleware list"
  routes :: "string \<rightharpoonup> handler"

definition setupMiddleware :: "(string \<Rightarrow> int \<Rightarrow> bool) \<Rightarrow> Middleware list" where
  "setupMiddleware str_below =
     use (use (use (use (use [] LoggingMiddleware) RateLimitingMiddleware)
        AuthenticationMiddleware) (ValidationMiddleware str_below)) AuthorizationMiddleware"

definition constant_handler :: "Response \<Rightarrow> handler" where
  "constant_handler response w = (Inr response, w)"

definition setupRoutes :: "string \<rightharpoonup> handler" where
  "setupRoutes =
     [''GET:/users/123'' \<mapsto> constant_handler
         \<lparr>status = 200,
          rbody = Fields [(''id'', ''123''), (''name'', ''John Doe''), (''email'', ''john@example.com'')],
          rheaders = None\<rparr>,
      ''POST:/users'' \<mapsto> constant_handler
         \<lparr>status = 201,
          rbody = Fields [(''id'', ''new-user''), (''message'', ''User created successfully'')],
          rheaders = None\<rparr>,
      ''DELETE:/users/123'' \<mapsto> constant_handler
         \<lparr>status = 200,
          rbody = Fields [(''message'', ''User deleted successfully'')],
          rheaders = None\<rparr>]"

definition newHTTPServer :: "(string \<Rightarrow> int \<Rightarrow> bool) \<Rightarrow> HTTPServer" where
  "newHTTPServer str_below = \<lparr>pipeline = setupMiddleware str_below, routes = setupRoutes\<rparr>"

definition notFound :: Response where
  "notFound = \<lparr>status = 404, rbody = ErrorBody ''Route not found'', rheaders = None\<rparr>"

definition internalError :: Response where
  "internalError = \<lparr>status = 500, rbody = ErrorBody ''Internal server error'', rheaders = None\<rparr>"

text \<open>
  \<^verbatim>\<open>handleRequest\<close>, in the state \<open>w\<close> the server is in when the request \<open>r\<close> arrives.
  It returns the response, the log of what was dispatched, and the state afterwards.
\<close>

definition handleRequest ::
  "HTTPServer \<Rightarrow> Request \<Rightarrow> world \<Rightarrow> (Response \<times> event list \<times> world) option" where
  "handleRequest server r w =
     (case routes server (key_of r) of
        None \<Rightarrow> Some (notFound, [], w)
      | Some h \<Rightarrow>
          (case execute (pipeline server) h (w\<lparr>request := r\<rparr>) of
             None \<Rightarrow> None
           | Some (Inr response, c) \<Rightarrow> Some (response, trace c, world c)
           | Some (Inl err, c) \<Rightarrow> Some (internalError, trace c, world c)))"

text \<open>
  \<^verbatim>\<open>demonstrateMiddlewarePattern\<close> builds a server and sends these two requests.
\<close>

definition validRequest :: Request where
  "validRequest =
     \<lparr>req_id = ''req-001'', req_method = ''POST'', path = ''/users'',
      headers = [''authorization'' \<mapsto> ''Bearer valid-token''],
      body = Some [''email'' \<mapsto> Str ''test@example.com'', ''name'' \<mapsto> Str ''Test User'',
                   ''age'' \<mapsto> Number 25],
      user = None\<rparr>"

definition unauthorizedRequest :: Request where
  "unauthorizedRequest =
     \<lparr>req_id = ''req-002'', req_method = ''DELETE'', path = ''/users/123'',
      headers = [''authorization'' \<mapsto> ''Bearer valid-token''],
      body = Some Map.empty,
      user = None\<rparr>"

subsection \<open>Notions used in the statements\<close>

text \<open>What a run shows from outside: the result and the log, without the state.\<close>

definition outcome :: "(result \<times> chain) option \<Rightarrow> (result \<times> event list) option" where
  "outcome res = (case res of None \<Rightarrow> None | Some (r, c) \<Rightarrow> Some (r, trace c))"

definition observed ::
  "(Response \<times> event list \<times> world) option \<Rightarrow> (Response \<times> event list) option" where
  "observed res = (case res of None \<Rightarrow> None | Some (response, tr, w) \<Rightarrow> Some (response, tr))"

text \<open>The state a handler leaves when it returns or when it calls \<^verbatim>\<open>next\<close>.\<close>

fun after :: "step \<Rightarrow> world" where
  "after (Done r w) = w"
| "after (Call w k) = w"

fun returns :: "step \<Rightarrow> bool" where
  "returns (Done r w) = True"
| "returns (Call w k) = False"

text \<open>
  A handler that calls its continuation at most once: it returns at once, or it calls
  \<^verbatim>\<open>next\<close> and returns after that call. The five handlers of the source are of this
  kind.
\<close>

definition single_shot :: "Middleware \<Rightarrow> bool" where
  "single_shot m =
     (\<forall>w. case m w of Done r w' \<Rightarrow> True | Call w' k \<Rightarrow> (\<forall>r w''. returns (k r w'')))"

text \<open>
  Going down the list of registered handlers from the state \<open>w\<close>, each handler receiving
  the state its predecessor called \<^verbatim>\<open>next\<close> in: \<open>invoked_count\<close> is the number of
  handlers up to and including the first that does not call \<^verbatim>\<open>next\<close>, and
  \<open>all_delegate\<close> says that every handler calls \<^verbatim>\<open>next\<close>.
\<close>

fun invoked_count :: "Middleware list \<Rightarrow> world \<Rightarrow> nat" where
  "invoked_count [] w = 0"
| "invoked_count (m # ms) w =
     (case m w of Done r w' \<Rightarrow> 1 | Call w' k \<Rightarrow> 1 + invoked_count ms w')"

fun all_delegate :: "Middleware list \<Rightarrow> world \<Rightarrow> bool" where
  "all_delegate [] w = True"
| "all_delegate (m # ms) w =
     (case m w of Done r w' \<Rightarrow> False | Call w' k \<Rightarrow> all_delegate ms w')"

text \<open>
  What one call of the closure \<^verbatim>\<open>next\<close> in the state \<open>c\<close> does to the chain: it returns,
  and meanwhile the handlers from \<open>index c\<close> on were dispatched one after the other, each
  once, followed by \<open>k\<close> calls of the terminal handler, which happen only when every
  registered handler has been dispatched.
\<close>

definition dispatched :: "nat \<Rightarrow> chain \<Rightarrow> (result \<times> chain) option \<Rightarrow> bool" where
  "dispatched len c res =
     (\<exists>r c' k. res = Some (r, c') \<and> index c \<le> index c' \<and> index c' \<le> len \<and>
        trace c' = trace c @ map Invoked [index c..<index c'] @ replicate k Terminal \<and>
        (k = 0 \<or> index c' = len))"

text \<open>
  The errors a handler can end with lie in \<open>E\<close>, as long as the errors \<^verbatim>\<open>next\<close> throws
  at it do.
\<close>

definition within :: "error set \<Rightarrow> result \<Rightarrow> bool" where
  "within E r = (case r of Inl err \<Rightarrow> err \<in> E | Inr response \<Rightarrow> True)"

primrec confined :: "error set \<Rightarrow> step \<Rightarrow> bool" where
  "confined E (Done r w) = within E r"
| "confined E (Call w k) = (\<forall>r w'. within E r \<longrightarrow> confined E (k r w'))"

text \<open>The timestamps of the requesting client that \<^verbatim>\<open>isRateLimited\<close> keeps.\<close>

definition pruned :: "world \<Rightarrow> int list" where
  "pruned w =
     filter (\<lambda>time. clock w (ticks w) - time < windowMs) (stored w (getClientId (request w)))"

text \<open>The fields a schema declares.\<close>

definition declared :: "Schema \<Rightarrow> (string \<times> Rules) list" where
  "declared schema = (case schema_body schema of None \<Rightarrow> [] | Some entries \<Rightarrow> entries)"

text \<open>
  A handler keeps the property \<open>I\<close> of the state: it holds in the state the handler
  returns or calls \<^verbatim>\<open>next\<close> in, and again when the handler returns after \<^verbatim>\<open>next\<close>, as long
  as \<^verbatim>\<open>next\<close> keeps it.
\<close>

primrec preserves :: "(world \<Rightarrow> bool) \<Rightarrow> step \<Rightarrow> bool" where
  "preserves I (Done r w) = I w"
| "preserves I (Call w k) = (I w \<and> (\<forall>r w'. I w' \<longrightarrow> preserves I (k r w')))"

text \<open>No client has more than \<open>maxRequests\<close> timestamps in the rate limiter's table.\<close>

definition bounded :: "world \<Rightarrow> bool" where
  "bounded w = (\<forall>clientId. length (stored w clientId) \<le> maxRequests)"

text \<open>
  Requests handled one after the other, each awaited before the next is sent, as
  \<^verbatim>\<open>demonstrateMiddlewarePattern\<close> does.
\<close>

fun serve :: "HTTPServer \<Rightarrow> Request list \<Rightarrow> world \<Rightarrow> (Response list \<times> world) option" where
  "serve server [] w = Some ([], w)"
| "serve server (r # rs) w =
     (case handleRequest server r w of
        None \<Rightarrow> None
      | Some (response, tr, w') \<Rightarrow>
          (case serve server rs w' of
             None \<Rightarrow> None
           | Some (responses, w'') \<Rightarrow> Some (response # responses, w'')))"

text \<open>
  The closure \<^verbatim>\<open>next\<close> as \<^verbatim>\<open>execute\<close> builds it for the registered handlers \<open>mws\<close> and the
  terminal handler \<open>h\<close>: one function of the state of the chain, called by \<^verbatim>\<open>execute\<close>
  first and then by the handlers, any number of times.
\<close>

definition next_of :: "Middleware list \<Rightarrow> handler \<Rightarrow> chain \<Rightarrow> (result \<times> chain) option" where
  "next_of mws h = next_closure (Suc (length mws)) mws h"

text \<open>
  The chain of continuations as the specification describes it: the continuation for
  handler \<open>i\<close> invokes handler \<open>i + 1\<close>, or the terminal handler if \<open>i\<close> is the last. A
  handler's body runs against its own continuation \<open>nxt\<close>, which starts the rest of the
  chain afresh at every call.
\<close>

primrec finish :: "step \<Rightarrow> (world \<Rightarrow> result \<times> world) \<Rightarrow> result \<times> world" where
  "finish (Done r w) nxt = (r, w)"
| "finish (Call w k) nxt = (case nxt w of (r, w') \<Rightarrow> finish (k r w') nxt)"

primrec chain_of :: "Middleware list \<Rightarrow> handler \<Rightarrow> world \<Rightarrow> result \<times> world" where
  "chain_of [] h = h"
| "chain_of (m # ms) h = (\<lambda>w. finish (m w) (chain_of ms h))"






subsection \<open>Concrete inputs\<close>

text \<open>A handler that awaits \<^verbatim>\<open>next()\<close> twice and returns what the second call returned.\<close>

definition call_twice :: Middleware where
  "call_twice w = Call w (\<lambda>r w'. Call w' return_next)"

definition deleted :: Response where
  "deleted =
     \<lparr>status = 200, rbody = Fields [(''message'', ''User deleted successfully'')], rheaders = None\<rparr>"

text \<open>A clock that advances by one millisecond per reading, and a server just started.\<close>

definition demo_clock :: "nat \<Rightarrow> int" where
  "demo_clock n = 1000 + int n"

definition started :: world where
  "started = \<lparr>request = validRequest, requests = Map.empty, clock = demo_clock, ticks = 0\<rparr>"

text \<open>Strings are never below a number here: a stand-in for the runtime's conversion.\<close>

definition no_string_below :: "string \<Rightarrow> int \<Rightarrow> bool" where
  "no_string_below s n = False"

definition created :: Response where
  "created =
     \<lparr>status = 201,
      rbody = Fields [(''id'', ''new-user''), (''message'', ''User created successfully'')],
      rheaders = None\<rparr>"

text \<open>
  The server after it has answered \<open>validRequest\<close> ten times in a row since its start
  (\<open>ten_requests_admitted\<close> below): the client \<^verbatim>\<open>unknown\<close> is at its limit.
\<close>

definition busy :: world where
  "busy =
     \<lparr>request = validRequest\<lparr>user :=
          Some \<lparr>ident = ''user123'', email = ''user@example.com'', role = ''user''\<rparr>\<rparr>,
      requests = [''unknown'' \<mapsto> [1002, 1006, 1010, 1014, 1018, 1022, 1026, 1030, 1034, 1038]],
      clock = demo_clock, ticks = 40\<rparr>"

text \<open>A request to create a user whose body breaks the rules of all three fields.\<close>

definition badRequest :: Request where
  "badRequest = validRequest\<lparr>body := Some [''email'' \<mapsto> Str ''nobody'', ''age'' \<mapsto> Number 5]\<rparr>"

text \<open>A handler that answers 403 at once.\<close>

definition deny :: Middleware where
  "deny w = Done (Inr forbidden) w"









section \<open>Properties\<close>

subsection \<open>The closure \<^verbatim>\<open>next\<close>\<close>

lemma dispatched_same:
  "index c \<le> len \<Longrightarrow> index c' = index c \<Longrightarrow> trace c' = trace c \<Longrightarrow>
     dispatched len c (Some (r, c'))"
  unfolding dispatched_def by (intro exI[of _ r] exI[of _ c'] exI[of _ 0]) simp

lemma dispatched_then:
  assumes first: "dispatched len c (Some (r, c'))"
    and same: "index c'' = index c'" "trace c'' = trace c'"
    and second: "dispatched len c'' res"
  shows "dispatched len c res"
proof -
  from first obtain k where k: "index c \<le> index c'" "index c' \<le> len"
    "trace c' = trace c @ map Invoked [index c..<index c'] @ replicate k Terminal"
    "k = 0 \<or> index c' = len"
    unfolding dispatched_def by auto
  from second obtain r2 c2 k2 where k2: "res = Some (r2, c2)"
    "index c'' \<le> index c2" "index c2 \<le> len"
    "trace c2 = trace c'' @ map Invoked [index c''..<index c2] @ replicate k2 Terminal"
    "k2 = 0 \<or> index c2 = len"
    unfolding dispatched_def by auto
  show ?thesis
  proof (cases "k = 0")
    case True
    have "[index c..<index c2] = [index c..<index c'] @ [index c'..<index c2]"
      using k(1) k2(2) same(1) by (metis upt_add_eq_append le_Suc_ex)
    then have "trace c2 = trace c @ map Invoked [index c..<index c2] @ replicate k2 Terminal"
      using k(3) k2(4) True same by simp
    then show ?thesis unfolding dispatched_def using k2 k same(1)
      by (intro exI[of _ r2] exI[of _ c2] exI[of _ k2]) simp
  next
    case False
    then have full: "index c' = len" using k(4) by simp
    then have full2: "index c2 = len" using k2(2,3) same(1) by simp
    then have "trace c2 = trace c @ map Invoked [index c..<index c2] @ replicate (k + k2) Terminal"
      using k(3) k2(4) full same by (simp add: replicate_add)
    then show ?thesis unfolding dispatched_def using k2 k same(1) full2
      by (intro exI[of _ r2] exI[of _ c2] exI[of _ "k + k2"]) simp
  qed
qed

lemma run_dispatched:
  assumes nxt: "\<And>c. i \<le> index c \<Longrightarrow> index c \<le> len \<Longrightarrow> dispatched len c (nxt c)"
  shows "i \<le> index c \<Longrightarrow> index c \<le> len \<Longrightarrow> dispatched len c (run p nxt c)"
proof (induction p arbitrary: c)
  case (Done r w)
  then show ?case by (simp add: dispatched_same)
next
  case (Call w k)
  let ?c0 = "c\<lparr>world := w\<rparr>"
  have d0: "dispatched len ?c0 (nxt ?c0)" using nxt[of ?c0] Call.prems by simp
  then obtain r c' where res: "nxt ?c0 = Some (r, c')"
    and i': "index ?c0 \<le> index c'" "index c' \<le> len"
    unfolding dispatched_def by auto
  have "dispatched len c' (run (k r (world c')) nxt c')"
    using Call.IH[of "k r" "k r (world c')" c'] i' Call.prems by simp
  with d0 res have "dispatched len ?c0 (run (k r (world c')) nxt c')"
    using dispatched_then[of len ?c0 r c' c'] by simp
  then have "dispatched len ?c0 (run (Call w k) nxt c)" using res by simp
  then show ?case unfolding dispatched_def by simp
qed

lemma next_closure_dispatched:
  "index c \<le> length mws \<Longrightarrow> length mws < index c + n \<Longrightarrow>
     dispatched (length mws) c (next_closure n mws h c)"
proof (induction n arbitrary: c)
  case 0
  then show ?case by simp
next
  case (Suc n)
  show ?case
  proof (cases "length mws \<le> index c")
    case True
    then have full: "index c = length mws" using Suc.prems by simp
    obtain r w' where h: "h (world c) = (r, w')" by (cases "h (world c)")
    show ?thesis unfolding dispatched_def using True h full
      by (intro exI[of _ r] exI[of _ "c\<lparr>trace := trace c @ [Terminal], world := w'\<rparr>"]
            exI[of _ 1]) simp
  next
    case False
    let ?c1 = "c\<lparr>index := index c + 1, trace := trace c @ [Invoked (index c)]\<rparr>"
    have "dispatched (length mws) ?c1
            (run ((mws ! index c) (world c)) (next_closure n mws h) ?c1)"
    proof (rule run_dispatched[where i = "index c + 1"])
      fix c2 :: chain
      assume "index c + 1 \<le> index c2" "index c2 \<le> length mws"
      then show "dispatched (length mws) c2 (next_closure n mws h c2)"
        using Suc.IH[of c2] Suc.prems by simp
    qed (use False in simp_all)
    then obtain r c' k
      where res: "run ((mws ! index c) (world c)) (next_closure n mws h) ?c1 = Some (r, c')"
        and i: "index c + 1 \<le> index c'" "index c' \<le> length mws"
        and tr: "trace c' = (trace c @ [Invoked (index c)])
                   @ map Invoked [index c + 1..<index c'] @ replicate k Terminal"
        and k: "k = 0 \<or> index c' = length mws"
      unfolding dispatched_def by auto
    have "[index c..<index c'] = index c # [index c + 1..<index c']"
      using i(1) by (simp add: upt_conv_Cons)
    then have "trace c' = trace c @ map Invoked [index c..<index c'] @ replicate k Terminal"
      using tr by simp
    then show ?thesis unfolding dispatched_def using False res i k
      by (intro exI[of _ r] exI[of _ c'] exI[of _ k]) simp
  qed
qed

text \<open>The fuel \<open>execute\<close> passes is never used up: \<open>execute\<close> always returns.\<close>

lemma execute_total: "\<exists>r c. execute mws h w = Some (r, c)"
  using next_closure_dispatched[of "\<lparr>index = 0, trace = [], world = w\<rparr>" mws "Suc (length mws)" h]
  unfolding execute_def dispatched_def by auto

lemma handleRequest_total: "\<exists>response tr w'. handleRequest server r w = Some (response, tr, w')"
proof (cases "routes server (key_of r)")
  case None
  then show ?thesis by (simp add: handleRequest_def)
next
  case (Some h)
  obtain res c where "execute (pipeline server) h (w\<lparr>request := r\<rparr>) = Some (res, c)"
    using execute_total by blast
  then show ?thesis using Some by (cases res) (simp_all add: handleRequest_def)
qed

subsection \<open>The fuel does not matter\<close>

lemma run_agree:
  assumes agree: "\<And>c. i \<le> index c \<Longrightarrow> index c \<le> len \<Longrightarrow> nxt c = nxt' c"
    and disp: "\<And>c. i \<le> index c \<Longrightarrow> index c \<le> len \<Longrightarrow> dispatched len c (nxt c)"
  shows "i \<le> index c \<Longrightarrow> index c \<le> len \<Longrightarrow> run p nxt c = run p nxt' c"
proof (induction p arbitrary: c)
  case (Done r w)
  then show ?case by simp
next
  case (Call w k)
  let ?c0 = "c\<lparr>world := w\<rparr>"
  have same: "nxt ?c0 = nxt' ?c0" using agree[of ?c0] Call.prems by simp
  have "dispatched len ?c0 (nxt ?c0)" using disp[of ?c0] Call.prems by simp
  then obtain r c' where res: "nxt ?c0 = Some (r, c')"
    and i': "index ?c0 \<le> index c'" "index c' \<le> len"
    unfolding dispatched_def by auto
  have "run (k r (world c')) nxt c' = run (k r (world c')) nxt' c'"
    using Call.IH[of "k r" "k r (world c')" c'] i' Call.prems by simp
  then show ?case using res same by simp
qed

lemma one_more_fuel:
  "index c \<le> length mws \<Longrightarrow> length mws < index c + n \<Longrightarrow>
     next_closure (Suc n) mws h c = next_closure n mws h c"
proof (induction n arbitrary: c)
  case 0
  then show ?case by simp
next
  case (Suc n)
  show ?case
  proof (cases "length mws \<le> index c")
    case True
    then show ?thesis by simp
  next
    case False
    let ?c1 = "c\<lparr>index := index c + 1, trace := trace c @ [Invoked (index c)]\<rparr>"
    have "run ((mws ! index c) (world c)) (next_closure (Suc n) mws h) ?c1
            = run ((mws ! index c) (world c)) (next_closure n mws h) ?c1"
    proof (rule run_agree[where i = "index c + 1" and len = "length mws"])
      fix c2 :: chain
      assume c2: "index c + 1 \<le> index c2" "index c2 \<le> length mws"
      then show "next_closure (Suc n) mws h c2 = next_closure n mws h c2"
        using Suc.IH[of c2] Suc.prems by simp
      show "dispatched (length mws) c2 (next_closure (Suc n) mws h c2)"
        using next_closure_dispatched[of c2 mws "Suc n" h] c2 Suc.prems by simp
    qed (use False in simp_all)
    then show ?thesis using False by simp
  qed
qed

lemma next_of_unfold:
  assumes "index c \<le> length mws"
  shows "next_of mws h c =
           (if index c < length mws
            then run ((mws ! index c) (world c)) (next_of mws h)
                   (c\<lparr>index := index c + 1, trace := trace c @ [Invoked (index c)]\<rparr>)
            else (case h (world c) of
                    (r, w') \<Rightarrow> Some (r, c\<lparr>trace := trace c @ [Terminal], world := w'\<rparr>)))"
proof (cases "index c < length mws")
  case False
  then show ?thesis by (simp add: next_of_def)
next
  case True
  let ?c1 = "c\<lparr>index := index c + 1, trace := trace c @ [Invoked (index c)]\<rparr>"
  have "run ((mws ! index c) (world c)) (next_closure (Suc (length mws)) mws h) ?c1
          = run ((mws ! index c) (world c)) (next_closure (length mws) mws h) ?c1"
  proof (rule run_agree[where i = "index c + 1" and len = "length mws"])
    fix c2 :: chain
    assume c2: "index c + 1 \<le> index c2" "index c2 \<le> length mws"
    then show "next_closure (Suc (length mws)) mws h c2 = next_closure (length mws) mws h c2"
      using one_more_fuel[of c2 mws "length mws" h] by simp
    show "dispatched (length mws) c2 (next_closure (Suc (length mws)) mws h c2)"
      using next_closure_dispatched[of c2 mws "Suc (length mws)" h] c2 by simp
  qed (use True in simp_all)
  then show ?thesis using True by (simp add: next_of_def)
qed

lemma next_of_advances:
  assumes "index c < length mws" and "next_of mws h c = Some (r, c')"
  shows "index c < index c'"
proof -
  let ?c1 = "c\<lparr>index := index c + 1, trace := trace c @ [Invoked (index c)]\<rparr>"
  have "dispatched (length mws) ?c1
          (run ((mws ! index c) (world c)) (next_closure (length mws) mws h) ?c1)"
  proof (rule run_dispatched[where i = "index c + 1"])
    fix c2 :: chain
    assume "index c + 1 \<le> index c2" "index c2 \<le> length mws"
    then show "dispatched (length mws) c2 (next_closure (length mws) mws h c2)"
      using next_closure_dispatched[of c2 mws "length mws" h] by simp
  qed (use assms(1) in simp_all)
  moreover have "next_of mws h c
      = run ((mws ! index c) (world c)) (next_closure (length mws) mws h) ?c1"
    using assms(1) by (simp add: next_of_def)
  ultimately show ?thesis using assms(2) unfolding dispatched_def by auto
qed

text \<open>The executor adds no error of its own to those of the handlers.\<close>

lemma run_confined:
  assumes nxt: "\<And>c r c'. nxt c = Some (r, c') \<Longrightarrow> within E r"
  shows "confined E p \<Longrightarrow> run p nxt c = Some (r, c') \<Longrightarrow> within E r"
proof (induction p arbitrary: c)
  case (Done r0 w)
  then show ?case by simp
next
  case (Call w k)
  from Call.prems(2) obtain r1 c1 where first: "nxt (c\<lparr>world := w\<rparr>) = Some (r1, c1)"
    and rest: "run (k r1 (world c1)) nxt c1 = Some (r, c')"
    by (auto split: option.splits)
  have "within E r1" using nxt first by blast
  then have "confined E (k r1 (world c1))" using Call.prems(1) by simp
  then show ?case using Call.IH[of "k r1" "k r1 (world c1)" c1] rest by simp
qed

lemma next_closure_confined:
  assumes mws: "\<forall>m\<in>set mws. \<forall>w. confined E (m w)"
    and h: "\<forall>w. within E (fst (h w))"
  shows "next_closure n mws h c = Some (r, c') \<Longrightarrow> within E r"
proof (induction n arbitrary: c r c')
  case 0
  then show ?case by simp
next
  case (Suc n)
  show ?case
  proof (cases "length mws \<le> index c")
    case True
    then have "r = fst (h (world c))" using Suc.prems by (auto split: prod.splits)
    then show ?thesis using h by simp
  next
    case False
    let ?c1 = "c\<lparr>index := index c + 1, trace := trace c @ [Invoked (index c)]\<rparr>"
    have body: "confined E ((mws ! index c) (world c))" using mws False by simp
    have "run ((mws ! index c) (world c)) (next_closure n mws h) ?c1 = Some (r, c')"
      using Suc.prems False by simp
    then show ?thesis using run_confined[OF _ body] Suc.IH by blast
  qed
qed

subsection \<open>Handlers that call \<^verbatim>\<open>next\<close> at most once\<close>

lemma returns_run: "returns p \<Longrightarrow> \<exists>r w. run p nxt c = Some (r, c\<lparr>world := w\<rparr>)"
  by (cases p) auto

lemma invoked_count_le: "invoked_count ms w \<le> length ms"
  by (induction ms arbitrary: w) (auto split: step.splits)

lemma single_shot_Logging: "single_shot LoggingMiddleware"
  by (simp add: single_shot_def LoggingMiddleware_def Date_now_def split: sum.splits)

lemma single_shot_RateLimiting: "single_shot RateLimitingMiddleware"
  by (simp add: single_shot_def RateLimitingMiddleware_def isRateLimited_def Date_now_def
        Let_def return_next_def)

lemma single_shot_Authentication: "single_shot AuthenticationMiddleware"
  by (simp add: single_shot_def AuthenticationMiddleware_def split: option.splits sum.splits)

lemma single_shot_validation: "single_shot (validation_execute str_below schemas)"
  by (simp add: single_shot_def validation_execute_def Let_def return_next_def
        split: option.splits)

lemma single_shot_authorization: "single_shot (authorization_execute permissions)"
  by (simp add: single_shot_def authorization_execute_def return_next_def split: option.splits)

lemma single_shot_setupMiddleware: "\<forall>m\<in>set (setupMiddleware str_below). single_shot m"
  by (simp add: setupMiddleware_def use_def single_shot_Logging single_shot_RateLimiting
        single_shot_Authentication single_shot_validation single_shot_authorization
        ValidationMiddleware_def AuthorizationMiddleware_def)

subsection \<open>The chain of continuations\<close>

lemma finish_returns: "returns p \<Longrightarrow> finish p nxt = (case p of Done r w \<Rightarrow> (r, w))"
  by (cases p) auto

lemma single_shot_chain:
  assumes ss: "\<forall>m\<in>set mws. single_shot m"
  shows "index c \<le> length mws \<Longrightarrow> length mws < index c + n \<Longrightarrow>
     \<exists>c'. next_closure n mws h c = Some (fst (chain_of (drop (index c) mws) h (world c)), c') \<and>
       world c' = snd (chain_of (drop (index c) mws) h (world c)) \<and>
       index c' = index c + invoked_count (drop (index c) mws) (world c) \<and>
       trace c' = trace c
          @ map Invoked [index c..<index c + invoked_count (drop (index c) mws) (world c)]
          @ (if all_delegate (drop (index c) mws) (world c) then [Terminal] else [])"
proof (induction n arbitrary: c)
  case 0
  then show ?case by simp
next
  case (Suc n)
  show ?case
  proof (cases "length mws \<le> index c")
    case True
    then show ?thesis by (cases "h (world c)") simp
  next
    case False
    let ?i = "index c"
    let ?m = "mws ! ?i"
    let ?rest = "drop (?i + 1) mws"
    let ?c1 = "c\<lparr>index := ?i + 1, trace := trace c @ [Invoked ?i]\<rparr>"
    have dr: "drop ?i mws = ?m # ?rest"
      using False by (simp add: Cons_nth_drop_Suc)
    have ssm: "single_shot ?m" using ss False by simp
    have nc: "next_closure (Suc n) mws h c = run (?m (world c)) (next_closure n mws h) ?c1"
      using False by simp
    show ?thesis
    proof (cases "?m (world c)")
      case (Done r w)
      then show ?thesis using nc dr by simp
    next
      case (Call w k)
      let ?c2 = "?c1\<lparr>world := w\<rparr>"
      from Suc.IH[of ?c2] Suc.prems False
      obtain c' where res: "next_closure n mws h ?c2 = Some (fst (chain_of ?rest h w), c')"
        and wd: "world c' = snd (chain_of ?rest h w)"
        and ix: "index c' = ?i + 1 + invoked_count ?rest w"
        and tr: "trace c' = (trace c @ [Invoked ?i])
            @ map Invoked [?i + 1..<?i + 1 + invoked_count ?rest w]
            @ (if all_delegate ?rest w then [Terminal] else [])"
        by auto
      let ?r = "fst (chain_of ?rest h w)"
      have ret: "returns (k ?r (world c'))"
        using ssm Call unfolding single_shot_def by (metis step.simps(6))
      then obtain r' w' where k: "k ?r (world c') = Done r' w'"
        by (cases "k ?r (world c')") auto
      have run: "next_closure (Suc n) mws h c = Some (r', c'\<lparr>world := w'\<rparr>)"
        using nc Call res k by simp
      have spec: "chain_of (drop ?i mws) h (world c) = (r', w')"
        using dr Call k wd by (simp add: split_beta)
      have "[?i..<?i + (1 + invoked_count ?rest w)]
              = ?i # [?i + 1..<?i + 1 + invoked_count ?rest w]"
        by (simp add: upt_conv_Cons)
      then show ?thesis using run tr ix dr Call spec by simp
    qed
  qed
qed

subsection \<open>The rate limiter, case by case\<close>

lemma limiter_cases:
  "RateLimitingMiddleware w =
     (if maxRequests \<le> length (pruned w)
      then Done (Inr tooManyRequests)
             (w\<lparr>ticks := ticks w + 1,
                requests := (requests w)(getClientId (request w) \<mapsto> pruned w)\<rparr>)
      else Call (w\<lparr>ticks := ticks w + 2,
                   requests := (requests w)(getClientId (request w) \<mapsto>
                      pruned w @ [clock w (ticks w + 1)])\<rparr>)
             return_next)"
  by (simp add: RateLimitingMiddleware_def isRateLimited_def recordRequest_def Date_now_def
        stored_def Let_def pruned_def)

lemma pruned_stale:
  "\<forall>t\<in>set (stored w (getClientId (request w))). windowMs \<le> clock w (ticks w) - t \<Longrightarrow>
     pruned w = []"
  unfolding pruned_def by (auto simp: filter_empty_conv)

subsection \<open>The validator's loop\<close>

lemma foldl_errors:
  "foldl (\<lambda>errors (field, rules). errors @ f field rules) acc entries
     = acc @ concat (map (\<lambda>(field, rules). f field rules) entries)"
  by (induction entries arbitrary: acc) auto

lemma validateRequest_all_fields:
  "validateRequest str_below r schema =
     concat (map (\<lambda>(field, rules). validateField str_below field (body_field r field) rules)
               (declared schema))"
  by (simp add: validateRequest_def declared_def foldl_errors split: option.splits)

subsection \<open>Histories of rate limiter calls\<close>










lemma return_next_eq: "return_next = (\<lambda>r w. Done r w)"
  by (intro ext) (simp add: return_next_def)

lemmas handler_defs =
  LoggingMiddleware_def RateLimitingMiddleware_def AuthenticationMiddleware_def
  ValidationMiddleware_def AuthorizationMiddleware_def validation_execute_def
  authorization_execute_def Date_now_def getClientId_def isRateLimited_def recordRequest_def
  stored_def startsWith_def verifyToken_def return_next_def key_of_def

lemmas server_defs =
  handleRequest_def newHTTPServer_def setupRoutes_def setupMiddleware_def use_def execute_def
  constant_handler_def validation_schemas_def route_permissions_def maxRequests_def
  windowMs_def observed_def outcome_def

lemmas input_defs =
  validRequest_def unauthorizedRequest_def badRequest_def started_def busy_def
  demo_clock_def deleted_def created_def no_string_below_def call_twice_def deny_def

subsection \<open>Properties of the state that every handler keeps\<close>

lemma run_preserves:
  assumes nxt: "\<And>c r c'. I (world c) \<Longrightarrow> nxt c = Some (r, c') \<Longrightarrow> I (world c')"
  shows "preserves I p \<Longrightarrow> run p nxt c = Some (r, c') \<Longrightarrow> I (world c')"
proof (induction p arbitrary: c)
  case (Done r0 w)
  then show ?case by auto
next
  case (Call w k)
  from Call.prems(2) obtain r1 c1 where first: "nxt (c\<lparr>world := w\<rparr>) = Some (r1, c1)"
    and rest: "run (k r1 (world c1)) nxt c1 = Some (r, c')"
    by (auto split: option.splits)
  have "I (world c1)" using nxt[of "c\<lparr>world := w\<rparr>" r1 c1] first Call.prems(1) by simp
  then have "preserves I (k r1 (world c1))" using Call.prems(1) by simp
  then show ?case using Call.IH[of "k r1" "k r1 (world c1)" c1] rest by simp
qed

lemma next_closure_preserves:
  assumes mws: "\<forall>m\<in>set mws. \<forall>w. I w \<longrightarrow> preserves I (m w)"
    and h: "\<forall>w. I w \<longrightarrow> I (snd (h w))"
  shows "I (world c) \<Longrightarrow> next_closure n mws h c = Some (r, c') \<Longrightarrow> I (world c')"
proof (induction n arbitrary: c r c')
  case 0
  then show ?case by simp
next
  case (Suc n)
  show ?case
  proof (cases "length mws \<le> index c")
    case True
    then have "world c' = snd (h (world c))" using Suc.prems(2) by (auto split: prod.splits)
    then show ?thesis using h Suc.prems(1) by simp
  next
    case False
    let ?c1 = "c\<lparr>index := index c + 1, trace := trace c @ [Invoked (index c)]\<rparr>"
    have body: "preserves I ((mws ! index c) (world c))" using mws False Suc.prems(1) by simp
    have "run ((mws ! index c) (world c)) (next_closure n mws h) ?c1 = Some (r, c')"
      using Suc.prems(2) False by simp
    then show ?thesis using run_preserves[OF _ body] Suc.IH by blast
  qed
qed

text \<open>The bound on the rate limiter's table is such a property for the server's handlers.\<close>

lemma limiter_keeps_bound: "bounded w \<Longrightarrow> bounded (after (RateLimitingMiddleware w))"
proof -
  assume b: "bounded w"
  have "length (pruned w) \<le> length (stored w (getClientId (request w)))"
    by (simp add: pruned_def)
  then have kept: "length (pruned w) \<le> maxRequests"
    using b order_trans unfolding bounded_def by blast
  show ?thesis unfolding bounded_def
  proof
    fix c
    show "length (stored (after (RateLimitingMiddleware w)) c) \<le> maxRequests"
    proof (cases "c = getClientId (request w)")
      case True
      then show ?thesis using kept by (simp add: limiter_cases stored_def)
    next
      case False
      then have "stored (after (RateLimitingMiddleware w)) c = stored w c"
        by (simp add: limiter_cases stored_def)
      then show ?thesis using b by (simp add: bounded_def)
    qed
  qed
qed

lemma bounded_ticks: "bounded (w\<lparr>ticks := n\<rparr>) = bounded w"
  by (simp add: bounded_def stored_def)

lemma bounded_request: "bounded (w\<lparr>request := r\<rparr>) = bounded w"
  by (simp add: bounded_def stored_def)

lemma setupMiddleware_keeps_bound:
  "\<forall>m\<in>set (setupMiddleware str_below). \<forall>w. bounded w \<longrightarrow> preserves bounded (m w)"
proof -
  have logging: "preserves bounded (LoggingMiddleware w)" if "bounded w" for w
    using that by (simp add: LoggingMiddleware_def Date_now_def bounded_ticks split: sum.splits)
  have limiter: "preserves bounded (RateLimitingMiddleware w)" if "bounded w" for w
    using limiter_keeps_bound[OF that]
    by (simp add: limiter_cases return_next_def split: if_splits)
  have authentication: "preserves bounded (AuthenticationMiddleware w)" if "bounded w" for w
    using that
    by (simp add: AuthenticationMiddleware_def bounded_request split: option.splits sum.splits)
  have validation: "preserves bounded (ValidationMiddleware str_below w)" if "bounded w" for w
    using that
    by (simp add: ValidationMiddleware_def validation_execute_def Let_def return_next_def
          split: option.splits)
  have authorization: "preserves bounded (AuthorizationMiddleware w)" if "bounded w" for w
    using that
    by (simp add: AuthorizationMiddleware_def authorization_execute_def return_next_def
          split: option.splits)
  show ?thesis
    using logging limiter authentication validation authorization
    by (simp add: setupMiddleware_def use_def)
qed

lemma setupRoutes_keeps_bound:
  "setupRoutes key = Some h \<Longrightarrow> bounded w \<Longrightarrow> bounded (snd (h w))"
  by (auto simp: setupRoutes_def constant_handler_def split: if_splits)

text \<open>
  The table is empty when the server starts, and every request the server handles leaves
  the bound in place: no client ever has more than \<open>maxRequests\<close> timestamps stored.
\<close>

lemma handleRequest_keeps_bound:
  assumes "bounded w" and "handleRequest (newHTTPServer str_below) r w = Some (response, tr, w')"
  shows "bounded w'"
proof (cases "setupRoutes (key_of r)")
  case None
  then show ?thesis using assms by (simp add: handleRequest_def newHTTPServer_def)
next
  case (Some h)
  let ?w0 = "w\<lparr>request := r\<rparr>"
  from assms(2) Some obtain res c
    where run: "execute (setupMiddleware str_below) h ?w0 = Some (res, c)" and w': "w' = world c"
    by (auto simp: handleRequest_def newHTTPServer_def split: option.splits sum.splits)
  have start: "bounded ?w0" using assms(1) by (simp add: bounded_request)
  have terminal: "\<forall>w. bounded w \<longrightarrow> bounded (snd (h w))"
    using setupRoutes_keeps_bound[OF Some] by simp
  have run': "next_closure (Suc (length (setupMiddleware str_below))) (setupMiddleware str_below) h
                \<lparr>index = 0, trace = [], world = ?w0\<rparr> = Some (res, c)"
    using run unfolding execute_def .
  have "bounded (world c)"
    by (rule next_closure_preserves[OF setupMiddleware_keeps_bound terminal _ run'])
      (simp add: start)
  then show ?thesis using w' by simp
qed

lemma serve_keeps_bound:
  "bounded w \<Longrightarrow> serve (newHTTPServer str_below) rs w = Some (responses, w') \<Longrightarrow> bounded w'"
proof (induction rs arbitrary: w responses)
  case Nil
  then show ?case by simp
next
  case (Cons r rs)
  from Cons.prems(2) obtain response tr w1 rest
    where one: "handleRequest (newHTTPServer str_below) r w = Some (response, tr, w1)"
      and more: "serve (newHTTPServer str_below) rs w1 = Some (rest, w')"
    by (auto split: option.splits)
  have "bounded w1" using handleRequest_keeps_bound[OF Cons.prems(1) one] .
  then show ?case using Cons.IH more by blast
qed

lemma bounded_at_start: "requests w = Map.empty \<Longrightarrow> bounded w"
  by (simp add: bounded_def stored_def)

subsection \<open>Ten requests in a row\<close>

text \<open>
  \<open>validRequest\<close>, sent while the client \<^verbatim>\<open>unknown\<close> has fewer than ten timestamps stored
  inside the window, is answered with 201, and its time is appended to those; sent while
  there are ten or more, it is answered with 429 by the rate limiter.
\<close>

lemma valid_request_admitted:
  assumes kept: "filter (\<lambda>time. clk (Suc n) - time < 60000)
                   (case m ''unknown'' of None \<Rightarrow> [] | Some ys \<Rightarrow> ys) = xs"
    and room: "length xs < 10"
  shows "handleRequest (newHTTPServer str_below) validRequest
           \<lparr>request = r0, requests = m, clock = clk, ticks = n\<rparr> =
     Some (created, [Invoked 0, Invoked 1, Invoked 2, Invoked 3, Invoked 4, Terminal],
       \<lparr>request = validRequest\<lparr>user :=
              Some \<lparr>ident = ''user123'', email = ''user@example.com'', role = ''user''\<rparr>\<rparr>,
        requests = m(''unknown'' \<mapsto> xs @ [clk (n + 2)]), clock = clk, ticks = n + 4\<rparr>)"
  using room
  by (simp add: kept handler_defs server_defs validRequest_def created_def
        validateRequest_def validateField_def body_field_def isValidEmail_def
        matchesEmail_def plain_def whitespace_def typeof_def length_below_def below_def
        Let_def)


lemma ten_requests_admitted:
  "serve (newHTTPServer str_below)
     [validRequest, validRequest, validRequest, validRequest, validRequest,
      validRequest, validRequest, validRequest, validRequest, validRequest] started
   = Some ([created, created, created, created, created,
            created, created, created, created, created], busy)"
  by (simp add: valid_request_admitted[OF refl] started_def busy_def demo_clock_def)

text \<open>The eleventh is stopped by the rate limiter, the second handler of the pipeline.\<close>

lemma eleventh_request_rejected:
  "observed (handleRequest (newHTTPServer str_below) validRequest busy)
     = Some (tooManyRequests, [Invoked 0, Invoked 1])"
  by (simp add: handler_defs server_defs input_defs Let_def)

section \<open>The claims\<close>

subsection \<open>C1\<close>

text \<open>
  The permission table knows the route as \<^verbatim>\<open>DELETE:/users/:id\<close>; the key the authorizer
  looks up is built from the request's own path, and for the demonstration's request it
  is \<^verbatim>\<open>DELETE:/users/123\<close>. When an entry is found, a role outside it is answered with 403.
\<close>

lemma no_permission_entry_for_demo: "route_permissions (key_of unauthorizedRequest) = None"
  by (simp add: route_permissions_def key_of_def unauthorizedRequest_def)

lemma authorizer_forbids:
  "permissions (key_of (request w)) = Some requiredRoles \<Longrightarrow> user (request w) = Some u \<Longrightarrow>
     role u \<notin> set requiredRoles \<Longrightarrow> authorization_execute permissions w = Done (Inr forbidden) w"
  by (simp add: authorization_execute_def)

text \<open>
  C1. The claim: the request \<^verbatim>\<open>DELETE /users/123\<close> with the bearer token of a user of role
  \<^verbatim>\<open>user\<close> is answered with status 403, and the terminal route handler is not invoked.
  On the code, sent to a server that has just started (whatever the clock shows), the
  request passes all five handlers, the terminal handler runs, and the answer is its 200.
\<close>

theorem demo_delete_request_reaches_handler:
  "observed (handleRequest (newHTTPServer str_below) unauthorizedRequest
       \<lparr>request = r0, requests = Map.empty, clock = clk, ticks = n\<rparr>)
     = Some (\<lparr>status = 200, rbody = Fields [(''message'', ''User deleted successfully'')],
              rheaders = None\<rparr>,
             [Invoked 0, Invoked 1, Invoked 2, Invoked 3, Invoked 4, Terminal])"
  by (simp add: handler_defs server_defs unauthorizedRequest_def)

subsection \<open>C2\<close>

text \<open>
  C2, as stated, fails: a handler that invokes its continuation a second time gets no
  \<^verbatim>\<open>InvalidChainState\<close> error. With \<open>call_twice\<close> as the only registered handler, both
  calls of \<^verbatim>\<open>next\<close> find \<^verbatim>\<open>index >= this.middlewares.length\<close>, the terminal handler runs
  twice and its response is returned.
\<close>

theorem second_next_call_runs_terminal_again:
  "outcome (execute [call_twice] (constant_handler deleted) started)
     = Some (Inr deleted, [Invoked 0, Terminal, Terminal])"
  by (simp add: server_defs input_defs return_next_def)

text \<open>
  C2, amended. For every request processed by the pipeline executor, no registered handler
  is invoked more than once, and a continuation invoked a second time does not fail; it
  does what every call of the continuation does. In whatever state of the chain the
  continuation is called (by \<^verbatim>\<open>execute\<close>, or by a handler for the first, second or any
  further time), the call runs the registered handler number \<open>index\<close>, the first one not
  yet dispatched, against this same continuation, or the terminal handler once all
  registered handlers have been dispatched. The call returns; it leaves \<open>index\<close> beyond
  the handler it dispatched and never lowers it, so no later call reaches that handler
  again, while the terminal handler can run several times. The executor raises no error
  of its own: an error a call ends with lies in every set \<open>E\<close> that holds the errors of
  the handlers and of the terminal handler.
\<close>

theorem continuation_dispatches_next_handler:
  assumes "index c \<le> length mws"
  shows "next_of mws h c =
           (if index c < length mws
            then run ((mws ! index c) (world c)) (next_of mws h)
                   (c\<lparr>index := index c + 1, trace := trace c @ [Invoked (index c)]\<rparr>)
            else (case h (world c) of
                    (r, w') \<Rightarrow> Some (r, c\<lparr>trace := trace c @ [Terminal], world := w'\<rparr>)))
     \<and> (\<exists>r c' k. next_of mws h c = Some (r, c') \<and>
           index c \<le> index c' \<and> index c' \<le> length mws \<and>
           (index c < length mws \<longrightarrow> index c < index c') \<and>
           trace c' = trace c @ map Invoked [index c..<index c'] @ replicate k Terminal \<and>
           (k = 0 \<or> index c' = length mws) \<and>
           ((\<forall>m\<in>set mws. \<forall>w'. confined E (m w')) \<and> (\<forall>w'. within E (fst (h w')))
              \<longrightarrow> within E r))
     \<and> execute mws h w = next_of mws h \<lparr>index = 0, trace = [], world = w\<rparr>"
proof (intro conjI)
  show "next_of mws h c =
           (if index c < length mws
            then run ((mws ! index c) (world c)) (next_of mws h)
                   (c\<lparr>index := index c + 1, trace := trace c @ [Invoked (index c)]\<rparr>)
            else (case h (world c) of
                    (r, w') \<Rightarrow> Some (r, c\<lparr>trace := trace c @ [Terminal], world := w'\<rparr>)))"
    using assms by (rule next_of_unfold)
next
  have "dispatched (length mws) c (next_of mws h c)"
    unfolding next_of_def using assms by (intro next_closure_dispatched) simp_all
  then obtain r c' k where res: "next_of mws h c = Some (r, c')"
    and shape: "index c \<le> index c'" "index c' \<le> length mws"
      "trace c' = trace c @ map Invoked [index c..<index c'] @ replicate k Terminal"
      "k = 0 \<or> index c' = length mws"
    unfolding dispatched_def by auto
  have adv: "index c < length mws \<longrightarrow> index c < index c'"
    using next_of_advances res by blast
  have "within E r" if "\<forall>m\<in>set mws. \<forall>w'. confined E (m w')" "\<forall>w'. within E (fst (h w'))"
    using next_closure_confined[OF that] res unfolding next_of_def by blast
  with res shape adv
  show "\<exists>r c' k. next_of mws h c = Some (r, c') \<and>
           index c \<le> index c' \<and> index c' \<le> length mws \<and>
           (index c < length mws \<longrightarrow> index c < index c') \<and>
           trace c' = trace c @ map Invoked [index c..<index c'] @ replicate k Terminal \<and>
           (k = 0 \<or> index c' = length mws) \<and>
           ((\<forall>m\<in>set mws. \<forall>w'. confined E (m w')) \<and> (\<forall>w'. within E (fst (h w')))
              \<longrightarrow> within E r)"
    by blast
next
  show "execute mws h w = next_of mws h \<lparr>index = 0, trace = [], world = w\<rparr>"
    by (simp add: execute_def next_of_def)
qed

text \<open>
  With \<open>call_twice\<close> in front of a handler that answers 403 at once and of the logging
  handler: the first call of \<^verbatim>\<open>next\<close> dispatches handler 1, the second call handler 2,
  which reads the clock twice and reaches the terminal handler, whose response is
  returned.
\<close>

theorem continuation_dispatches_next_handler_witness:
  "outcome (next_of [call_twice, deny, LoggingMiddleware] (constant_handler deleted)
              \<lparr>index = 0, trace = [], world = started\<rparr>)
     = Some (Inr deleted, [Invoked 0, Invoked 1, Invoked 2, Terminal])
   \<and> (\<exists>r c'. execute [call_twice, deny, LoggingMiddleware] (constant_handler deleted) started
                = Some (r, c') \<and> index c' = 3 \<and> ticks (world c') = 2 \<and> within {} r)"
proof -
  let ?mws = "[call_twice, deny, LoggingMiddleware]"
  let ?h = "constant_handler deleted"
  let ?c0 = "\<lparr>index = 0, trace = [], world = started\<rparr>"
  have start: "index ?c0 \<le> length ?mws" by simp
  have quiet: "\<forall>m\<in>set ?mws. \<forall>w'. confined {} (m w')"
    by (simp add: call_twice_def deny_def LoggingMiddleware_def Date_now_def return_next_def
          within_def split: sum.splits)
  have terminal: "\<forall>w'. within {} (fst (?h w'))"
    by (simp add: constant_handler_def within_def)
  have run: "next_closure (Suc (length ?mws)) ?mws ?h ?c0
      = Some (Inr deleted,
          \<lparr>index = 3, trace = [Invoked 0, Invoked 1, Invoked 2, Terminal],
             world = started\<lparr>ticks := 2\<rparr>\<rparr>)"
    by (simp add: call_twice_def deny_def LoggingMiddleware_def Date_now_def return_next_def
          constant_handler_def started_def)
  show ?thesis
    using continuation_dispatches_next_handler[OF start, of ?h "{}" started] quiet terminal run
    by (simp add: next_of_def outcome_def within_def execute_def)
qed

subsection \<open>C3\<close>




subsection \<open>C4\<close>

text \<open>
  C4, as stated, fails for a handler that calls its continuation twice. With \<open>call_twice\<close>
  in front of a handler that answers 403 at once, the first call of \<^verbatim>\<open>next\<close> dispatches
  that handler, which short-circuits; the second call finds no handler left and runs the
  terminal handler, whose response is returned. So the terminal handler executes although
  a registered handler did not delegate.
\<close>

theorem terminal_runs_after_short_circuit:
  "outcome (execute [call_twice, deny] (constant_handler deleted) started)
     = Some (Inr deleted, [Invoked 0, Invoked 1, Terminal])
   \<and> deny started = Done (Inr forbidden) started
   \<and> \<not> all_delegate [call_twice, deny] started"
  by (simp add: server_defs input_defs return_next_def deny_def)

text \<open>
  C4, amended. For a pipeline of handlers that call their continuation at most once (as
  the five registered by \<^verbatim>\<open>setupMiddleware\<close> do), every execution, whatever the request
  and the state, runs the chain of continuations of the registered handlers in
  registration order: its result and the state it leaves are those of \<open>chain_of\<close>, where
  handler \<open>i\<close> hands over to handler \<open>i + 1\<close> and the last one to the terminal handler.
  The handlers dispatched are \<open>0, 1, 2, \<dots>\<close> up to and including the first one that does
  not call \<^verbatim>\<open>next\<close>, and nothing else; the terminal handler runs (once, after all of
  them) if and only if every registered handler calls \<^verbatim>\<open>next\<close>.
\<close>

theorem handlers_run_in_registration_order:
  assumes "\<forall>m\<in>set mws. single_shot m"
  shows "\<exists>c. execute mws h w = Some (fst (chain_of mws h w), c) \<and>
     world c = snd (chain_of mws h w) \<and>
     index c = invoked_count mws w \<and>
     trace c = map Invoked [0..<invoked_count mws w]
                 @ (if all_delegate mws w then [Terminal] else []) \<and>
     invoked_count mws w \<le> length mws \<and>
     (Terminal \<in> set (trace c) \<longleftrightarrow> all_delegate mws w)"
proof -
  let ?c0 = "\<lparr>index = 0, trace = [], world = w\<rparr>"
  from single_shot_chain[OF assms, of ?c0 "Suc (length mws)" h]
  obtain c where res: "execute mws h w = Some (fst (chain_of mws h w), c)"
    and wd: "world c = snd (chain_of mws h w)"
    and ix: "index c = invoked_count mws w"
    and tr: "trace c = map Invoked [0..<invoked_count mws w]
                 @ (if all_delegate mws w then [Terminal] else [])"
    unfolding execute_def by auto
  have "Terminal \<in> set (trace c) \<longleftrightarrow> all_delegate mws w"
    using tr by auto
  then show ?thesis using res wd ix tr invoked_count_le by blast
qed

theorem handlers_run_in_registration_order_witness:
  "(\<exists>c. execute (setupMiddleware no_string_below) (constant_handler deleted)
            (started\<lparr>request := unauthorizedRequest\<rparr>) = Some (Inr deleted, c) \<and>
      ticks (world c) = 4 \<and>
      trace c = [Invoked 0, Invoked 1, Invoked 2, Invoked 3, Invoked 4, Terminal])
   \<and> (\<exists>c. execute (setupMiddleware no_string_below) (constant_handler deleted)
            (started\<lparr>request := unauthorizedRequest\<lparr>headers := Map.empty\<rparr>\<rparr>)
          = Some (Inr (unauthorized ''Missing or invalid authorization header''), c) \<and>
      ticks (world c) = 4 \<and>
      trace c = [Invoked 0, Invoked 1, Invoked 2])"
proof -
  let ?mws = "setupMiddleware no_string_below"
  let ?h = "constant_handler deleted"
  let ?w1 = "started\<lparr>request := unauthorizedRequest\<rparr>"
  let ?w2 = "started\<lparr>request := unauthorizedRequest\<lparr>headers := Map.empty\<rparr>\<rparr>"
  have ss: "\<forall>m\<in>set ?mws. single_shot m" by (rule single_shot_setupMiddleware)
  have n1: "invoked_count ?mws ?w1 = 5" and d1: "all_delegate ?mws ?w1"
    by (simp_all add: handler_defs server_defs input_defs Let_def)
  have n2: "invoked_count ?mws ?w2 = 3" and d2: "\<not> all_delegate ?mws ?w2"
    by (simp_all add: handler_defs server_defs input_defs Let_def)
  have r1: "fst (chain_of ?mws ?h ?w1) = Inr deleted"
    and t1: "ticks (snd (chain_of ?mws ?h ?w1)) = 4"
    by (simp_all add: handler_defs server_defs input_defs Let_def)
  have r2: "fst (chain_of ?mws ?h ?w2)
              = Inr (unauthorized ''Missing or invalid authorization header'')"
    and t2: "ticks (snd (chain_of ?mws ?h ?w2)) = 4"
    by (simp_all add: handler_defs server_defs input_defs Let_def)
  have five: "[0..<5] = [0, 1, 2, 3, 4]" and three: "[0..<3] = [0, 1, 2]"
    by (simp_all add: upt_rec)
  from handlers_run_in_registration_order[OF ss, of ?h ?w1]
  obtain c1 where "execute ?mws ?h ?w1 = Some (Inr deleted, c1)"
    "ticks (world c1) = 4"
    "trace c1 = [Invoked 0, Invoked 1, Invoked 2, Invoked 3, Invoked 4, Terminal]"
    using n1 d1 r1 t1 five by auto
  moreover from handlers_run_in_registration_order[OF ss, of ?h ?w2]
  obtain c2 where "execute ?mws ?h ?w2
        = Some (Inr (unauthorized ''Missing or invalid authorization header''), c2)"
    "ticks (world c2) = 4"
    "trace c2 = [Invoked 0, Invoked 1, Invoked 2]"
    using n2 d2 r2 t2 three by auto
  ultimately show ?thesis by blast
qed

subsection \<open>C5\<close>

text \<open>
  C5. When the header \<^verbatim>\<open>authorization\<close> is absent or does not start with \<^verbatim>\<open>Bearer \<close>, the
  authenticator returns status 401 without calling \<^verbatim>\<open>next\<close>; when the token after
  \<^verbatim>\<open>Bearer \<close> fails verification, it returns 401 with the message \<^verbatim>\<open>Invalid token\<close>,
  again without calling \<^verbatim>\<open>next\<close>. Neither case changes the state.
\<close>

theorem authenticator_rejects:
  "(headers (request w) ''authorization'' = None \<or>
    (\<exists>h. headers (request w) ''authorization'' = Some h \<and> \<not> startsWith h ''Bearer '')
      \<longrightarrow> AuthenticationMiddleware w =
            Done (Inr \<lparr>status = 401,
                       rbody = ErrorBody ''Missing or invalid authorization header'',
                       rheaders = None\<rparr>) w)
   \<and> (\<forall>h err. headers (request w) ''authorization'' = Some h \<and> startsWith h ''Bearer '' \<and>
          verifyToken (drop 7 h) = Inl err
      \<longrightarrow> AuthenticationMiddleware w =
            Done (Inr \<lparr>status = 401, rbody = ErrorBody ''Invalid token'', rheaders = None\<rparr>) w)"
  by (auto simp: AuthenticationMiddleware_def startsWith_def unauthorized_def)

theorem authenticator_rejects_witness:
  "headers (request (started\<lparr>request := validRequest\<lparr>headers := Map.empty\<rparr>\<rparr>)) ''authorization''
      = None
   \<and> AuthenticationMiddleware (started\<lparr>request := validRequest\<lparr>headers := Map.empty\<rparr>\<rparr>) =
       Done (Inr \<lparr>status = 401, rbody = ErrorBody ''Missing or invalid authorization header'',
                  rheaders = None\<rparr>)
            (started\<lparr>request := validRequest\<lparr>headers := Map.empty\<rparr>\<rparr>)
   \<and> verifyToken (drop 7 ''Bearer expired'') = Inl (Error ''Invalid token'')
   \<and> AuthenticationMiddleware
        (started\<lparr>request := validRequest\<lparr>headers := [''authorization'' \<mapsto> ''Bearer expired'']\<rparr>\<rparr>) =
       Done (Inr \<lparr>status = 401, rbody = ErrorBody ''Invalid token'', rheaders = None\<rparr>)
            (started\<lparr>request := validRequest\<lparr>headers := [''authorization'' \<mapsto> ''Bearer expired'']\<rparr>\<rparr>)"
  using authenticator_rejects[of "started\<lparr>request := validRequest\<lparr>headers := Map.empty\<rparr>\<rparr>"]
    authenticator_rejects
      [of "started\<lparr>request := validRequest\<lparr>headers := [''authorization'' \<mapsto> ''Bearer expired'']\<rparr>\<rparr>"]
  by (simp add: startsWith_def verifyToken_def)

subsection \<open>C6\<close>

text \<open>
  C6. When the key \<^verbatim>\<open>METHOD:path\<close> of the request is absent from the schema registry, the
  validator calls \<^verbatim>\<open>next\<close> in the unchanged state and returns what \<^verbatim>\<open>next\<close> returns (or
  throws what it throws); when the key is absent from the permission registry, the
  authorizer does the same. Nothing else about the request or the state is assumed, and
  the registries are arbitrary.
\<close>

theorem undeclared_route_fails_open:
  "(schemas (key_of (request w)) = None
      \<longrightarrow> validation_execute str_below schemas w = Call w (\<lambda>r w'. Done r w'))
   \<and> (permissions (key_of (request w)) = None
      \<longrightarrow> authorization_execute permissions w = Call w (\<lambda>r w'. Done r w'))"
  by (simp add: validation_execute_def authorization_execute_def return_next_eq)

theorem undeclared_route_fails_open_witness:
  "validation_schemas (key_of unauthorizedRequest) = None
   \<and> ValidationMiddleware no_string_below (started\<lparr>request := unauthorizedRequest\<rparr>)
       = Call (started\<lparr>request := unauthorizedRequest\<rparr>) (\<lambda>r w'. Done r w')
   \<and> route_permissions (key_of unauthorizedRequest) = None
   \<and> AuthorizationMiddleware (started\<lparr>request := unauthorizedRequest\<rparr>)
       = Call (started\<lparr>request := unauthorizedRequest\<rparr>) (\<lambda>r w'. Done r w')"
proof -
  have absent: "validation_schemas (key_of unauthorizedRequest) = None"
    "route_permissions (key_of unauthorizedRequest) = None"
    by (simp_all add: validation_schemas_def route_permissions_def key_of_def unauthorizedRequest_def)
  show ?thesis
    using undeclared_route_fails_open
      [of validation_schemas "started\<lparr>request := unauthorizedRequest\<rparr>" no_string_below
          route_permissions]
    by (simp add: absent ValidationMiddleware_def AuthorizationMiddleware_def)
qed

subsection \<open>C7\<close>

text \<open>
  C7. When the schema registry has an entry for the request's key, the errors the
  validator collects are the errors of every declared field, one field after the other
  in the order of declaration (nothing stops at a failing field). When that list is not
  empty the validator returns status 400 with the whole list as the body's details,
  without calling \<^verbatim>\<open>next\<close>; when it is empty it calls \<^verbatim>\<open>next\<close> and returns what it returns.
\<close>

theorem validator_accumulates_errors:
  assumes "schemas (key_of (request w)) = Some schema"
  shows "validateRequest str_below (request w) schema =
           concat (map (\<lambda>(field, rules).
                          validateField str_below field (body_field (request w) field) rules)
                     (declared schema))
     \<and> validation_execute str_below schemas w =
         (if validateRequest str_below (request w) schema = []
          then Call w (\<lambda>r w'. Done r w')
          else Done (Inr \<lparr>status = 400,
                          rbody = ErrorDetails ''Validation failed''
                                    (validateRequest str_below (request w) schema),
                          rheaders = None\<rparr>) w)"
  using assms
  by (simp add: validateRequest_all_fields validation_execute_def validationFailed_def
        return_next_eq Let_def)

theorem validator_accumulates_errors_witness:
  "validateRequest no_string_below badRequest (the (validation_schemas ''POST:/users''))
     = [''email must be a valid email'', ''name is required'', ''age must be at least 18'']
   \<and> ValidationMiddleware no_string_below (started\<lparr>request := badRequest\<rparr>) =
       Done (Inr \<lparr>status = 400,
                  rbody = ErrorDetails ''Validation failed''
                    [''email must be a valid email'', ''name is required'',
                     ''age must be at least 18''],
                  rheaders = None\<rparr>)
            (started\<lparr>request := badRequest\<rparr>)"
proof -
  let ?schema = "the (validation_schemas ''POST:/users'')"
  have entry: "validation_schemas (key_of (request (started\<lparr>request := badRequest\<rparr>))) = Some ?schema"
    by (simp add: validation_schemas_def key_of_def badRequest_def validRequest_def)
  have errors: "concat (map (\<lambda>(field, rules).
                  validateField no_string_below field (body_field badRequest field) rules)
                  (declared ?schema))
      = [''email must be a valid email'', ''name is required'', ''age must be at least 18'']"
    by (simp add: validation_schemas_def declared_def validateField_def body_field_def
          badRequest_def validRequest_def isValidEmail_def matchesEmail_def plain_def
          whitespace_def typeof_def below_def showInt_def showNat.simps)
  show ?thesis
    using validator_accumulates_errors
      [where schemas = validation_schemas and w = "started\<lparr>request := badRequest\<rparr>"
         and schema = ?schema and str_below = no_string_below]
      entry
    by (simp add: errors ValidationMiddleware_def)
qed

subsection \<open>C8\<close>

text \<open>
  C8. When no terminal handler is registered under the request's key \<^verbatim>\<open>METHOD:path\<close>,
  \<^verbatim>\<open>handleRequest\<close> returns status 404; the pipeline does not run: nothing is dispatched
  (the log is empty) and the state of the server is unchanged.
\<close>

theorem unknown_route_not_found:
  assumes "routes server (key_of r) = None"
  shows "handleRequest server r w =
           Some (\<lparr>status = 404, rbody = ErrorBody ''Route not found'', rheaders = None\<rparr>, [], w)"
  using assms by (simp add: handleRequest_def notFound_def)

theorem unknown_route_not_found_witness:
  "routes (newHTTPServer no_string_below) (key_of (validRequest\<lparr>path := ''/orders''\<rparr>)) = None
   \<and> handleRequest (newHTTPServer no_string_below) (validRequest\<lparr>path := ''/orders''\<rparr>) started =
       Some (\<lparr>status = 404, rbody = ErrorBody ''Route not found'', rheaders = None\<rparr>, [], started)"
proof -
  have absent:
    "routes (newHTTPServer no_string_below) (key_of (validRequest\<lparr>path := ''/orders''\<rparr>)) = None"
    by (simp add: newHTTPServer_def setupRoutes_def key_of_def validRequest_def)
  show ?thesis
    using unknown_route_not_found[OF absent, of started] absent by simp
qed

subsection \<open>C9\<close>




subsection \<open>C10\<close>

text \<open>
  C10. For a field whose rules include \<^verbatim>\<open>required\<close> and whose value is \<^verbatim>\<open>undefined\<close> or
  \<^verbatim>\<open>null\<close>, \<^verbatim>\<open>validateField\<close> reports exactly one error, \<^verbatim>\<open><field> is required\<close>, whatever
  the rules \<^verbatim>\<open>type\<close>, \<^verbatim>\<open>minLength\<close> and \<^verbatim>\<open>min\<close> of the field are: none of them adds an
  error.
\<close>

theorem missing_required_field_single_error:
  assumes "required rules" and "v = Undefined \<or> v = Null"
  shows "validateField str_below field v rules = [field @ '' is required'']"
  using assms by (auto simp: validateField_def)

theorem missing_required_field_single_error_witness:
  "required \<lparr>required = True, type_rule = Some ''string'', minLength = Some 2, min_rule = Some 18\<rparr>
   \<and> validateField no_string_below ''name'' Null
        \<lparr>required = True, type_rule = Some ''string'', minLength = Some 2, min_rule = Some 18\<rparr>
      = [''name is required'']"
  using missing_required_field_single_error
    [of "\<lparr>required = True, type_rule = Some ''string'', minLength = Some 2, min_rule = Some 18\<rparr>"
        Null no_string_below "''name''"]
  by simp

end
